theory Spec2Isabelle
  imports Main "HOL-Library.AList"
begin

section \<open>Data model of \<open>database.py\<close>\<close>

text \<open>
  Keys and values are Python strings.  The base table \<open>self.database\<close> is a dict that is
  only ever looked up, assigned and deleted by key, so it is a map.  A transaction block is
  a dict from keys to a value or \<open>None\<close> that is also iterated; it is an association list
  (lookup \<open>map_of\<close>, assignment \<open>AList.update\<close>, iteration in list order).  Python 2
  fixes no iteration order for a dict; the general results below hold for every store,
  hence for every order of the entries of a block.
  \<open>self.value_count\<close> is a \<open>defaultdict(int)\<close>: a map whose entries come into being
  when a missing key is read.
\<close>

type_synonym key = string
type_synonym val = string
type_synonym transaction = "(key \<times> val option) list"

record db =
  database :: "key \<rightharpoonup> val"
  value_count :: "val \<rightharpoonup> int"
  pending_transactions_list :: "transaction list"

text \<open>What a method prints: \<open>PrintNull\<close> is the line \<open>NULL\<close>, \<open>PrintNoTransaction\<close> the
  line \<open>NO TRANSACTION\<close>; a method that prints nothing yields \<open>None\<close>.\<close>

datatype printed = PrintValue val | PrintNull | PrintCount int | PrintNoTransaction

text \<open>\<open>Database.__init__\<close>\<close>

definition init :: db where
  "init = \<lparr>database = Map.empty, value_count = Map.empty, pending_transactions_list = []\<rparr>"

text \<open>Python truth of a string: the empty string is false.\<close>

definition truthy :: "val \<Rightarrow> bool" where
  "truthy v = (v \<noteq> [])"

text \<open>Reading \<open>d[v]\<close> on a \<open>defaultdict(int)\<close>: a missing key is inserted with 0.\<close>

definition dd_getitem :: "(val \<rightharpoonup> int) \<Rightarrow> val \<Rightarrow> int \<times> (val \<rightharpoonup> int)" where
  "dd_getitem vc v = (case vc v of Some n \<Rightarrow> (n, vc) | None \<Rightarrow> (0, vc(v \<mapsto> 0)))"

text \<open>\<open>d[v] += i\<close> on a \<open>defaultdict(int)\<close>: read, then assign.\<close>

definition dd_add :: "val \<Rightarrow> int \<Rightarrow> (val \<rightharpoonup> int) \<Rightarrow> (val \<rightharpoonup> int)" where
  "dd_add v i vc = (case dd_getitem vc v of (n, vc') \<Rightarrow> vc'(v \<mapsto> n + i))"

text \<open>\<open>self.pending_transactions_list[-1][key] = e\<close>\<close>

definition assign_last :: "key \<Rightarrow> val option \<Rightarrow> transaction list \<Rightarrow> transaction list" where
  "assign_last k e ts = butlast ts @ [AList.update k e (last ts)]"

section \<open>The operations\<close>

text \<open>\<open>Database.set(key, value, commit)\<close>\<close>

definition set_db :: "key \<Rightarrow> val \<Rightarrow> bool \<Rightarrow> db \<Rightarrow> db" where
  "set_db k v commit_flag s =
    (let orig_val = database s k;
         s1 = (if pending_transactions_list s \<noteq> [] \<and> \<not> commit_flag
               then s\<lparr>pending_transactions_list :=
                        assign_last k (Some v) (pending_transactions_list s)\<rparr>
               else s\<lparr>database := (database s)(k \<mapsto> v)\<rparr>)
     in if \<not> commit_flag
        then (let s2 = s1\<lparr>value_count := dd_add v 1 (value_count s1)\<rparr>
              in case orig_val of
                   Some ov \<Rightarrow>
                     if truthy ov \<and> ov \<noteq> v
                     then s2\<lparr>value_count := dd_add ov (- 1) (value_count s2)\<rparr>
                     else s2
                 | None \<Rightarrow> s2)
        else s1)"

text \<open>The loop of \<open>Database.get\<close> over \<open>reversed(self.pending_transactions_list)\<close>: the
  first block that contains the key decides, with its entry.\<close>

fun find_pending :: "transaction list \<Rightarrow> key \<Rightarrow> val option option" where
  "find_pending [] k = None"
| "find_pending (t # ts) k =
    (case map_of t k of Some e \<Rightarrow> Some e | None \<Rightarrow> find_pending ts k)"

text \<open>\<open>Database.get(key)\<close>, with the state it leaves behind.\<close>

definition get :: "key \<Rightarrow> db \<Rightarrow> printed \<times> db" where
  "get k s =
    (case (if pending_transactions_list s \<noteq> []
           then find_pending (rev (pending_transactions_list s)) k else None) of
       Some None \<Rightarrow> (PrintNull, s)
     | Some (Some v) \<Rightarrow> (PrintValue v, s)
     | None \<Rightarrow>
        (case database s k of Some v \<Rightarrow> (PrintValue v, s) | None \<Rightarrow> (PrintNull, s)))"

text \<open>\<open>Database.unset(key, commit)\<close>.  The test \<open>self.value_count[orig_val] > 0\<close> reads the
  defaultdict, and is only reached when the two conjuncts before it hold.\<close>

definition unset :: "key \<Rightarrow> bool \<Rightarrow> db \<Rightarrow> db" where
  "unset k commit_flag s =
    (let orig_val = database s k;
         s1 = (if pending_transactions_list s \<noteq> [] \<and> \<not> commit_flag
               then s\<lparr>pending_transactions_list :=
                        assign_last k None (pending_transactions_list s)\<rparr>
               else (case orig_val of
                       Some ov \<Rightarrow> if truthy ov then s\<lparr>database := (database s)(k := None)\<rparr> else s
                     | None \<Rightarrow> s))
     in case orig_val of
          Some ov \<Rightarrow>
            if \<not> commit_flag \<and> truthy ov
            then (case dd_getitem (value_count s1) ov of
                    (n, vc') \<Rightarrow>
                      if n > 0 then s1\<lparr>value_count := dd_add ov (- 1) vc'\<rparr>
                      else s1\<lparr>value_count := vc'\<rparr>)
            else s1
        | None \<Rightarrow> s1)"

text \<open>\<open>Database.numequalto(value)\<close>, with the state it leaves behind.\<close>

definition numequalto :: "val \<Rightarrow> db \<Rightarrow> printed \<times> db" where
  "numequalto v s =
    (if value_count s v \<noteq> None
     then (case dd_getitem (value_count s) v of
             (n, vc') \<Rightarrow> (PrintCount n, s\<lparr>value_count := vc'\<rparr>))
     else (PrintCount 0, s))"

text \<open>\<open>Database.begin()\<close>\<close>

definition begin_db :: "db \<Rightarrow> db" where
  "begin_db s = s\<lparr>pending_transactions_list := pending_transactions_list s @ [[]]\<rparr>"

text \<open>The second loop of \<open>Database.rollback\<close>: every key of a remaining block is removed
  from \<open>keys_to_update\<close> if it is there.\<close>

definition drop_pending_key :: "key \<Rightarrow> key list \<Rightarrow> key list" where
  "drop_pending_key pending_key keys_to_update =
    (if pending_key \<in> set keys_to_update then remove1 pending_key keys_to_update
     else keys_to_update)"

definition drop_pending :: "transaction list \<Rightarrow> key list \<Rightarrow> key list" where
  "drop_pending pendings keys_to_update =
    fold (\<lambda>pending. fold drop_pending_key (map fst pending)) pendings keys_to_update"

text \<open>The body of the third loop of \<open>Database.rollback\<close>, on the index alone.  The key
  comes from the popped block, so \<open>transaction[key]\<close> is always defined.\<close>

definition repair_key :: "transaction \<Rightarrow> (key \<rightharpoonup> val) \<Rightarrow> key \<Rightarrow> (val \<rightharpoonup> int) \<Rightarrow> (val \<rightharpoonup> int)" where
  "repair_key transaction base k vc =
    (let vc1 = (case base k of
                  Some ov \<Rightarrow> if truthy ov then dd_add ov 1 vc else vc
                | None \<Rightarrow> vc)
     in case map_of transaction k of
          Some (Some v) \<Rightarrow> dd_add v (- 1) vc1
        | Some None \<Rightarrow> vc1
        | None \<Rightarrow> vc1)"

text \<open>\<open>Database.rollback()\<close>\<close>

definition rollback :: "db \<Rightarrow> printed option \<times> db" where
  "rollback s =
    (if pending_transactions_list s \<noteq> []
     then (let transaction = last (pending_transactions_list s);
               remaining = butlast (pending_transactions_list s);
               keys_to_update = drop_pending remaining (map fst transaction)
           in (None, s\<lparr>pending_transactions_list := remaining,
                        value_count := fold (repair_key transaction (database s))
                                         keys_to_update (value_count s)\<rparr>))
     else (Some PrintNoTransaction, s))"

text \<open>The body of the inner loop of \<open>Database.commit\<close>; the accumulator is the store and
  \<open>keys_processed\<close>.\<close>

definition commit_key :: "transaction \<Rightarrow> key \<Rightarrow> db \<times> key list \<Rightarrow> db \<times> key list" where
  "commit_key transaction k acc =
    (case acc of (s, keys_processed) \<Rightarrow>
       if k \<in> set keys_processed then (s, keys_processed)
       else ((case map_of transaction k of
                Some None \<Rightarrow> unset k True s
              | Some (Some v) \<Rightarrow> set_db k v True s
              | None \<Rightarrow> s),
             keys_processed @ [k]))"

definition commit_transaction :: "transaction \<Rightarrow> db \<times> key list \<Rightarrow> db \<times> key list" where
  "commit_transaction transaction acc = fold (commit_key transaction) (map fst transaction) acc"

text \<open>\<open>Database.commit()\<close>\<close>

definition commit :: "db \<Rightarrow> printed option \<times> db" where
  "commit s =
    (if pending_transactions_list s \<noteq> []
     then (case fold commit_transaction (rev (pending_transactions_list s)) (s, []) of
             (s', keys_processed) \<Rightarrow> (None, s'\<lparr>pending_transactions_list := []\<rparr>))
     else (Some PrintNoTransaction, s))"

text \<open>The typed operations the dispatcher hands to the store, and a run of them.\<close>

datatype operation =
  Set key val | Get key | Unset key | Numequalto val | Begin | Rollback | Commit

fun step :: "operation \<Rightarrow> db \<Rightarrow> db" where
  "step (Set k v) s = set_db k v False s"
| "step (Get k) s = snd (get k s)"
| "step (Unset k) s = unset k False s"
| "step (Numequalto v) s = snd (numequalto v s)"
| "step Begin s = begin_db s"
| "step Rollback s = snd (rollback s)"
| "step Commit s = snd (commit s)"

definition run :: "operation list \<Rightarrow> db \<Rightarrow> db" where
  "run ops s = fold step ops s"

section \<open>Notions of the specification\<close>

text \<open>The effective state: the base table with the blocks laid over it from the outermost
  to the innermost, so that the innermost entry for a key wins and a tombstone removes it.\<close>

definition apply_overlay :: "(key \<rightharpoonup> val) \<Rightarrow> transaction \<Rightarrow> (key \<rightharpoonup> val)" where
  "apply_overlay base t = (\<lambda>k. case map_of t k of Some e \<Rightarrow> e | None \<Rightarrow> base k)"

definition effective :: "db \<Rightarrow> (key \<rightharpoonup> val)" where
  "effective s = foldl apply_overlay (database s) (pending_transactions_list s)"

text \<open>The count a query of the index observes: an absent entry counts as 0.\<close>

definition count_of :: "(val \<rightharpoonup> int) \<Rightarrow> val \<Rightarrow> int" where
  "count_of vc v = (case vc v of Some n \<Rightarrow> n | None \<Rightarrow> 0)"

text \<open>The store once the innermost block is taken off the stack.\<close>

definition popped :: "db \<Rightarrow> db" where
  "popped s = s\<lparr>pending_transactions_list := butlast (pending_transactions_list s)\<rparr>"

text \<open>Among the keys \<open>ks\<close>, how many have the effective value \<open>u\<close> once the innermost
  block is gone (the value a rollback exposes), and how many does the innermost block set
  to \<open>u\<close> (the value a rollback discards).\<close>

definition exposed_count :: "key list \<Rightarrow> db \<Rightarrow> val \<Rightarrow> int" where
  "exposed_count ks s u = int (length (filter (\<lambda>k. effective (popped s) k = Some u) ks))"

definition discarded_count :: "key list \<Rightarrow> db \<Rightarrow> val \<Rightarrow> int" where
  "discarded_count ks s u =
     int (length (filter (\<lambda>k. map_of (last (pending_transactions_list s)) k = Some (Some u)) ks))"

text \<open>The keys of a list of blocks, and the keys of the innermost block that no other block
  of the stack defines.\<close>

definition block_keys :: "transaction list \<Rightarrow> key list" where
  "block_keys ts = concat (map (map fst) ts)"

definition unshadowed_keys :: "db \<Rightarrow> key list" where
  "unshadowed_keys s =
     filter (\<lambda>k. k \<notin> set (block_keys (butlast (pending_transactions_list s))))
            (map fst (last (pending_transactions_list s)))"

section \<open>Reading: \<open>get\<close> and \<open>numequalto\<close>\<close>

lemma find_pending_effective:
  "(case find_pending (rev ts) k of Some e \<Rightarrow> e | None \<Rightarrow> base k)
     = foldl apply_overlay base ts k"
proof (induction ts rule: rev_induct)
  case Nil
  show ?case by simp
next
  case (snoc t ts)
  then show ?case by (simp add: apply_overlay_def split: option.splits)
qed

lemma get_prints_effective:
  "fst (get k s) = (case effective s k of Some v \<Rightarrow> PrintValue v | None \<Rightarrow> PrintNull)"
proof -
  have "(case find_pending (rev (pending_transactions_list s)) k of
           Some e \<Rightarrow> e | None \<Rightarrow> database s k) = effective s k"
    unfolding effective_def by (rule find_pending_effective)
  then show ?thesis
    by (cases "pending_transactions_list s = []")
       (auto simp add: get_def effective_def split: option.splits)
qed

lemma get_keeps_store: "snd (get k s) = s"
  by (simp add: get_def split: option.splits)

lemma numequalto_prints_count:
  "fst (numequalto v s) = PrintCount (count_of (value_count s) v)"
  by (cases "value_count s v") (simp_all add: numequalto_def dd_getitem_def count_of_def)

lemma numequalto_keeps_store: "snd (numequalto v s) = s"
  by (cases "value_count s v") (simp_all add: numequalto_def dd_getitem_def)

text \<open>
  Claim C6.  For every store and every key, \<open>get\<close> prints the key's effective value: the
  entry of the innermost block that defines the key (a tombstone giving \<open>NULL\<close> whatever
  the outer blocks and the base table hold), else the base table's value, else \<open>NULL\<close>;
  and the store it leaves behind is the store it was given.
\<close>

theorem get_effective_value:
  "get k s = ((case effective s k of Some v \<Rightarrow> PrintValue v | None \<Rightarrow> PrintNull), s)"
  by (simp add: prod_eq_iff get_prints_effective get_keeps_store)

text \<open>
  Claim C10.  For every store and every value, \<open>numequalto\<close> leaves the base table, the
  transaction stack and the index as they were, also when the value has no entry in the
  index: a query creates no entry.  What it prints is the entry, or 0 without one.
\<close>

theorem numequalto_pure:
  "snd (numequalto v s) = s
   \<and> value_count (snd (numequalto v s)) v = value_count s v
   \<and> fst (numequalto v s) = PrintCount (count_of (value_count s) v)"
  by (simp add: numequalto_keeps_store numequalto_prints_count)

section \<open>No open transaction\<close>

text \<open>
  Claim C7.  In every store whose transaction stack is empty, \<open>rollback\<close> and \<open>commit\<close>
  each print \<open>NO TRANSACTION\<close> and leave the whole store (base table, stack, index) as
  it was.
\<close>

theorem no_transaction_unchanged:
  "pending_transactions_list s = [] \<Longrightarrow>
     rollback s = (Some PrintNoTransaction, s) \<and> commit s = (Some PrintNoTransaction, s)"
  by (simp add: rollback_def commit_def)

theorem no_transaction_unchanged_witness:
  "pending_transactions_list init = []
   \<and> rollback init = (Some PrintNoTransaction, init)
   \<and> commit init = (Some PrintNoTransaction, init)"
  using no_transaction_unchanged [of init] by (simp add: init_def)

section \<open>The index under \<open>set\<close>\<close>

lemma count_of_dd_add:
  "count_of (dd_add v i vc) u = count_of vc u + (if u = v then i else 0)"
  by (simp add: count_of_def dd_add_def dd_getitem_def split: option.splits)

lemma set_db_count:
  "count_of (value_count (set_db k v False s)) u =
     count_of (value_count s) u + (if u = v then 1 else 0)
       - (if database s k = Some u \<and> truthy u \<and> u \<noteq> v then 1 else 0)"
  by (auto simp add: set_db_def Let_def count_of_dd_add split: option.splits)

lemma set_db_write_open:
  assumes "pending_transactions_list s \<noteq> []"
  shows "database (set_db k v False s) = database s"
    and "butlast (pending_transactions_list (set_db k v False s))
           = butlast (pending_transactions_list s)"
    and "map_of (last (pending_transactions_list (set_db k v False s)))
           = (map_of (last (pending_transactions_list s)))(k \<mapsto> Some v)"
  using assms
  by (simp_all add: set_db_def Let_def assign_last_def update_conv' split: option.splits)

lemma set_db_write_closed:
  assumes "pending_transactions_list s = []"
  shows "database (set_db k v False s) = (database s)(k \<mapsto> v)"
    and "pending_transactions_list (set_db k v False s) = []"
  using assms by (simp_all add: set_db_def Let_def split: option.splits)

text \<open>What \<open>set\<close> does, for a key whose base value is not the empty string: the write
  goes to the innermost block when a transaction is open (replacing that block's entry for
  the key and nothing else) and to the base table otherwise; the count of the new value
  goes up by one; and the count that goes down by one is that of the key's value in the
  base table, when it differs from the new one.  What the open blocks hold for the key
  plays no part.\<close>

lemma set_db_writes_and_counts:
  assumes "database s k \<noteq> Some []"
  shows "(if pending_transactions_list s \<noteq> []
          then database (set_db k v False s) = database s
             \<and> butlast (pending_transactions_list (set_db k v False s))
                 = butlast (pending_transactions_list s)
             \<and> map_of (last (pending_transactions_list (set_db k v False s)))
                 = (map_of (last (pending_transactions_list s)))(k \<mapsto> Some v)
          else database (set_db k v False s) = (database s)(k \<mapsto> v)
             \<and> pending_transactions_list (set_db k v False s) = [])
       \<and> count_of (value_count (set_db k v False s)) u =
           count_of (value_count s) u + (if u = v then 1 else 0)
             - (if database s k = Some u \<and> u \<noteq> v then 1 else 0)"
proof -
  have "(database s k = Some u \<and> truthy u \<and> u \<noteq> v) = (database s k = Some u \<and> u \<noteq> v)"
    using assms by (auto simp add: truthy_def)
  then show ?thesis
    by (simp add: set_db_count set_db_write_open set_db_write_closed)
qed

text \<open>
  Claim C2 asks that \<open>set\<close> take one off the count of the key's previous effective value
  when there is one and it differs from the new value.  After \<open>begin; set a 10\<close> the key
  \<open>a\<close> has the effective value \<open>10\<close> and \<open>numequalto 10\<close> prints 1.  Then \<open>set a 20\<close>
  writes \<open>20\<close> into the open block and counts it, and leaves the count of \<open>10\<close> at 1,
  because the base table holds nothing for \<open>a\<close>; so it stays after \<open>commit\<close>, when no key
  holds \<open>10\<close>.
\<close>

theorem set_in_block_keeps_old_count:
  "fst (get ''a'' (run [Begin, Set ''a'' ''10''] init)) = PrintValue ''10''
   \<and> fst (numequalto ''10'' (run [Begin, Set ''a'' ''10''] init)) = PrintCount 1
   \<and> fst (get ''a'' (run [Begin, Set ''a'' ''10'', Set ''a'' ''20''] init)) = PrintValue ''20''
   \<and> fst (numequalto ''20'' (run [Begin, Set ''a'' ''10'', Set ''a'' ''20''] init)) = PrintCount 1
   \<and> fst (numequalto ''10'' (run [Begin, Set ''a'' ''10'', Set ''a'' ''20''] init)) = PrintCount 1
   \<and> fst (numequalto ''10'' (run [Begin, Set ''a'' ''10'', Set ''a'' ''20'', Commit] init))
       = PrintCount 1
   \<and> database (run [Begin, Set ''a'' ''10'', Set ''a'' ''20'', Commit] init)
       = [''a'' \<mapsto> ''20'']"
  by (simp add: run_def init_def set_db_def begin_db_def assign_last_def dd_add_def
                dd_getitem_def truthy_def get_def numequalto_def commit_def
                commit_transaction_def commit_key_def)

section \<open>The index under \<open>rollback\<close>\<close>

lemma count_of_repair_key:
  "count_of (repair_key t base k vc) u =
     count_of vc u + (if base k = Some u \<and> truthy u then 1 else 0)
                   - (if map_of t k = Some (Some u) then 1 else 0)"
  by (auto simp add: repair_key_def count_of_dd_add Let_def split: option.splits)

lemma count_of_fold_repair_key:
  "count_of (fold (repair_key t base) ks vc) u =
     count_of vc u + int (length (filter (\<lambda>k. base k = Some u \<and> truthy u) ks))
                   - int (length (filter (\<lambda>k. map_of t k = Some (Some u)) ks))"
proof (induction ks arbitrary: vc)
  case Nil
  show ?case by simp
next
  case (Cons k ks)
  show ?case by (simp add: Cons.IH count_of_repair_key)
qed

text \<open>On a list without repetition, as the keys of a dict are, the second loop of
  \<open>rollback\<close> is a filter.\<close>

lemma fold_drop_pending_key:
  "distinct ktu \<Longrightarrow> fold drop_pending_key pks ktu = filter (\<lambda>k. k \<notin> set pks) ktu"
proof (induction pks arbitrary: ktu)
  case Nil
  show ?case by simp
next
  case (Cons pk pks)
  have e: "filter ((\<noteq>) pk) ktu = filter (\<lambda>k. k \<noteq> pk) ktu"
    by (rule filter_cong) auto
  have d: "drop_pending_key pk ktu = filter (\<lambda>k. k \<noteq> pk) ktu"
  proof (cases "pk \<in> set ktu")
    case True
    then show ?thesis
      using Cons.prems e
      by (simp add: drop_pending_key_def distinct_remove1_removeAll removeAll_filter_not_eq)
  next
    case False
    then have "filter (\<lambda>k. k \<noteq> pk) ktu = ktu" by (simp add: filter_id_conv) blast
    with False show ?thesis by (simp add: drop_pending_key_def)
  qed
  have "distinct (filter (\<lambda>k. k \<noteq> pk) ktu)" using Cons.prems by simp
  from Cons.IH [OF this] show ?case
    by (simp add: d conj_commute)
qed

lemma drop_pending_filter:
  "distinct ktu \<Longrightarrow>
     drop_pending pendings ktu = filter (\<lambda>k. k \<notin> set (block_keys pendings)) ktu"
proof (induction pendings arbitrary: ktu)
  case Nil
  show ?case by (simp add: drop_pending_def block_keys_def)
next
  case (Cons p ps)
  have "distinct (filter (\<lambda>k. k \<notin> set (map fst p)) ktu)" using Cons.prems by simp
  from Cons.IH [OF this] show ?case
    using Cons.prems
    by (simp add: drop_pending_def block_keys_def fold_drop_pending_key conj_commute)
qed

lemma effective_unshadowed:
  "k \<notin> set (block_keys ts) \<Longrightarrow> foldl apply_overlay base ts k = base k"
proof (induction ts rule: rev_induct)
  case Nil
  show ?case by simp
next
  case (snoc t ts)
  then have "map_of t k = None" by (simp add: map_of_eq_None_iff block_keys_def)
  with snoc show ?case by (simp add: apply_overlay_def block_keys_def)
qed

lemma exposed_count_unshadowed:
  "exposed_count (unshadowed_keys s) s u =
     int (length (filter (\<lambda>k. database s k = Some u) (unshadowed_keys s)))"
proof -
  have "filter (\<lambda>k. effective (popped s) k = Some u) (unshadowed_keys s)
        = filter (\<lambda>k. database s k = Some u) (unshadowed_keys s)"
    by (rule filter_cong)
       (auto simp add: unshadowed_keys_def effective_def popped_def effective_unshadowed)
  then show ?thesis by (simp add: exposed_count_def)
qed

lemma rollback_index:
  assumes "pending_transactions_list s \<noteq> []"
      and "distinct (map fst (last (pending_transactions_list s)))"
  shows "count_of (value_count (snd (rollback s))) u =
           count_of (value_count s) u
           + (if truthy u then exposed_count (unshadowed_keys s) s u else 0)
           - discarded_count (unshadowed_keys s) s u"
proof -
  have k: "drop_pending (butlast (pending_transactions_list s))
             (map fst (last (pending_transactions_list s))) = unshadowed_keys s"
    using assms(2) by (simp add: drop_pending_filter unshadowed_keys_def)
  have f: "filter (\<lambda>k. database s k = Some u \<and> truthy u) (unshadowed_keys s)
           = (if truthy u then filter (\<lambda>k. database s k = Some u) (unshadowed_keys s) else [])"
    by simp
  show ?thesis
    using assms(1)
    by (simp add: rollback_def Let_def k count_of_fold_repair_key f
                  exposed_count_unshadowed discarded_count_def)
qed

text \<open>What \<open>rollback\<close> does with a transaction open, the keys of the innermost block being
  pairwise distinct as dict keys are: it pops the innermost block, leaves the base table
  alone, and changes the counts only over the keys of the popped block that no remaining
  block defines.\<close>

lemma rollback_unshadowed:
  assumes "pending_transactions_list s \<noteq> []"
      and "distinct (map fst (last (pending_transactions_list s)))"
  shows "fst (rollback s) = None
       \<and> pending_transactions_list (snd (rollback s)) = butlast (pending_transactions_list s)
       \<and> database (snd (rollback s)) = database s
       \<and> count_of (value_count (snd (rollback s))) u =
           count_of (value_count s) u
           + (if truthy u then exposed_count (unshadowed_keys s) s u else 0)
           - discarded_count (unshadowed_keys s) s u"
  using assms(1) rollback_index [OF assms, of u]
  by (simp add: rollback_def Let_def)

text \<open>
  Claim C3 asks that \<open>rollback\<close> repair the index for each key of the popped block: one
  off the count of the discarded value, one onto the count of the value now exposed.
  After \<open>begin; set a 20; begin; set a 30\<close> the innermost block sets \<open>a\<close> to \<open>30\<close> and
  the block below sets it to \<open>20\<close>.  \<open>rollback\<close> drops \<open>a\<close> from \<open>keys_to_update\<close>
  because a remaining block defines it, and touches no count: \<open>get a\<close> prints \<open>20\<close>, no
  key holds \<open>30\<close>, and \<open>numequalto 30\<close> still prints 1.
\<close>

theorem rollback_shadowed_keeps_count:
  "fst (get ''a'' (run [Begin, Set ''a'' ''20'', Begin, Set ''a'' ''30''] init))
     = PrintValue ''30''
   \<and> fst (numequalto ''30'' (run [Begin, Set ''a'' ''20'', Begin, Set ''a'' ''30''] init))
       = PrintCount 1
   \<and> fst (rollback (run [Begin, Set ''a'' ''20'', Begin, Set ''a'' ''30''] init)) = None
   \<and> fst (get ''a'' (run [Begin, Set ''a'' ''20'', Begin, Set ''a'' ''30'', Rollback] init))
       = PrintValue ''20''
   \<and> fst (numequalto ''30''
           (run [Begin, Set ''a'' ''20'', Begin, Set ''a'' ''30'', Rollback] init))
       = PrintCount 1
   \<and> value_count (run [Begin, Set ''a'' ''20'', Begin, Set ''a'' ''30'', Rollback] init)
       = value_count (run [Begin, Set ''a'' ''20'', Begin, Set ''a'' ''30''] init)
   \<and> {k. fst (get k (run [Begin, Set ''a'' ''20'', Begin, Set ''a'' ''30'', Rollback] init))
            = PrintValue ''30''} = {}"
  by (auto simp add: run_def init_def set_db_def begin_db_def assign_last_def dd_add_def
                     dd_getitem_def truthy_def get_def numequalto_def rollback_def
                     drop_pending_def drop_pending_key_def repair_key_def
               split: if_splits)

section \<open>\<open>begin; set; rollback\<close>\<close>

lemma drop_pending_single:
  "k \<notin> set (block_keys ts) \<Longrightarrow> drop_pending ts [k] = [k]"
  by (simp add: drop_pending_filter)

text \<open>The sequence gives back the stack and the base table, hence what \<open>get\<close> prints, from
  every prior store.\<close>

lemma begin_set_rollback_store:
  "pending_transactions_list (run [Begin, Set k v, Rollback] s) = pending_transactions_list s"
  "database (run [Begin, Set k v, Rollback] s) = database s"
  by (simp_all add: run_def begin_db_def set_db_def assign_last_def rollback_def Let_def
               split: option.splits)

lemma begin_set_rollback_get:
  "fst (get j (run [Begin, Set k v, Rollback] s)) = fst (get j s)"
  by (simp add: get_prints_effective effective_def begin_set_rollback_store)

text \<open>It gives back the counts when no open block defines the key and the base table
  does not already hold the new value for it.\<close>

lemma begin_set_rollback_index:
  assumes "k \<notin> set (block_keys (pending_transactions_list s))"
  shows "value_count (run [Begin, Set k v, Rollback] s) =
           repair_key [(k, Some v)] (database s) k
             (value_count (set_db k v False (begin_db s)))"
  using assms
  by (simp add: run_def begin_db_def set_db_def assign_last_def rollback_def Let_def
                drop_pending_single split: option.splits)

lemma begin_set_rollback_count:
  assumes "k \<notin> set (block_keys (pending_transactions_list s))"
      and "database s k \<noteq> Some v"
  shows "fst (numequalto u (run [Begin, Set k v, Rollback] s)) = fst (numequalto u s)"
proof -
  have "count_of (value_count (run [Begin, Set k v, Rollback] s)) u
          = count_of (value_count s) u"
    using assms(2)
    by (auto simp add: begin_set_rollback_index [OF assms(1)] count_of_repair_key
                       set_db_def begin_db_def Let_def count_of_dd_add split: option.splits)
  then show ?thesis by (simp add: numequalto_prints_count)
qed

text \<open>
  Claim C5 asks that \<open>begin; set k v; rollback\<close> restore what \<open>get k\<close> and every
  \<open>numequalto u\<close> print, from any prior store, open transactions included.  After
  \<open>begin; set a 10\<close> the key \<open>a\<close> holds \<open>10\<close> and \<open>numequalto 20\<close> prints 0.  The
  sequence \<open>begin; set a 20; rollback\<close> gives \<open>get a\<close> back, and leaves \<open>numequalto 20\<close>
  at 1 with no key holding \<open>20\<close>: \<open>rollback\<close> skips the key because an open block
  defines it.
\<close>

theorem begin_set_rollback_leaves_count:
  "fst (get ''a'' (run [Begin, Set ''a'' ''10''] init)) = PrintValue ''10''
   \<and> fst (numequalto ''20'' (run [Begin, Set ''a'' ''10''] init)) = PrintCount 0
   \<and> fst (get ''a'' (run [Begin, Set ''a'' ''20'', Rollback]
                       (run [Begin, Set ''a'' ''10''] init))) = PrintValue ''10''
   \<and> fst (numequalto ''20'' (run [Begin, Set ''a'' ''20'', Rollback]
                              (run [Begin, Set ''a'' ''10''] init))) = PrintCount 1
   \<and> {k. fst (get k (run [Begin, Set ''a'' ''20'', Rollback]
                       (run [Begin, Set ''a'' ''10''] init))) = PrintValue ''20''} = {}"
  by (auto simp add: run_def init_def set_db_def begin_db_def assign_last_def dd_add_def
                     dd_getitem_def truthy_def get_def numequalto_def rollback_def
                     drop_pending_def drop_pending_key_def repair_key_def
               split: if_splits)

section \<open>\<open>commit\<close>\<close>

lemma set_db_commit: "set_db k v True s = s\<lparr>database := (database s)(k \<mapsto> v)\<rparr>"
  by (simp add: set_db_def)

lemma unset_commit:
  "database s k \<noteq> Some [] \<Longrightarrow> unset k True s = s\<lparr>database := (database s)(k := None)\<rparr>"
  by (cases "database s k") (simp_all add: unset_def truthy_def fun_upd_idem)

lemma commit_key_step:
  assumes "k \<in> set kp \<or> database s k \<noteq> Some []"
  shows "commit_key t k (s, kp) =
          (if k \<in> set kp then (s, kp)
           else (s\<lparr>database := (case map_of t k of
                                   Some e \<Rightarrow> (database s)(k := e)
                                 | None \<Rightarrow> database s)\<rparr>, kp @ [k]))"
  using assms
  by (auto simp add: commit_key_def set_db_commit unset_commit split: option.splits)

lemma fold_commit_key_result:
  assumes "\<And>k. k \<notin> set kp \<Longrightarrow> database s k \<noteq> Some []"
      and "fold (commit_key t) ks (s, kp) = (s', kp')"
  shows "set kp' = set kp \<union> set ks
       \<and> value_count s' = value_count s
       \<and> pending_transactions_list s' = pending_transactions_list s
       \<and> (\<forall>k. database s' k =
              (if k \<in> set ks \<and> k \<notin> set kp
               then (case map_of t k of Some e \<Rightarrow> e | None \<Rightarrow> database s k)
               else database s k))"
  using assms
proof (induction ks arbitrary: s kp)
  case Nil
  then show ?case by simp
next
  case (Cons a ks)
  show ?case
  proof (cases "a \<in> set kp")
    case True
    with Cons.prems(2) have "fold (commit_key t) ks (s, kp) = (s', kp')"
      by (simp add: commit_key_step)
    from Cons.IH [OF Cons.prems(1) this] True show ?thesis by auto
  next
    case False
    define s1 where "s1 = s\<lparr>database := (case map_of t a of
                                   Some e \<Rightarrow> (database s)(a := e)
                                 | None \<Rightarrow> database s)\<rparr>"
    have step: "commit_key t a (s, kp) = (s1, kp @ [a])"
      using False Cons.prems(1) [of a] by (simp add: commit_key_step s1_def)
    have d1: "\<And>k. k \<noteq> a \<Longrightarrow> database s1 k = database s k"
      by (simp add: s1_def split: option.splits)
    have da: "database s1 a = (case map_of t a of Some e \<Rightarrow> e | None \<Rightarrow> database s a)"
      by (simp add: s1_def split: option.splits)
    have p1: "\<And>k. k \<notin> set (kp @ [a]) \<Longrightarrow> database s1 k \<noteq> Some []"
      using Cons.prems(1) d1 by simp
    have r: "fold (commit_key t) ks (s1, kp @ [a]) = (s', kp')"
      using Cons.prems(2) step by simp
    have ih: "set kp' = set (kp @ [a]) \<union> set ks
       \<and> value_count s' = value_count s1
       \<and> pending_transactions_list s' = pending_transactions_list s1
       \<and> (\<forall>k. database s' k =
              (if k \<in> set ks \<and> k \<notin> set (kp @ [a])
               then (case map_of t k of Some e \<Rightarrow> e | None \<Rightarrow> database s1 k)
               else database s1 k))"
      by (rule Cons.IH [OF p1 r])
    have "\<forall>k. database s' k =
              (if k \<in> set (a # ks) \<and> k \<notin> set kp
               then (case map_of t k of Some e \<Rightarrow> e | None \<Rightarrow> database s k)
               else database s k)"
    proof
      fix k
      show "database s' k =
              (if k \<in> set (a # ks) \<and> k \<notin> set kp
               then (case map_of t k of Some e \<Rightarrow> e | None \<Rightarrow> database s k)
               else database s k)"
      proof (cases "k = a")
        case True
        with ih False da show ?thesis by (auto split: option.splits)
      next
        case kna: False
        with ih d1 [OF kna] show ?thesis by (auto split: option.splits)
      qed
    qed
    moreover have "value_count s1 = value_count s"
      and "pending_transactions_list s1 = pending_transactions_list s"
      by (simp_all add: s1_def)
    ultimately show ?thesis using ih by auto
  qed
qed

lemma fold_commit_transaction_result:
  assumes "\<And>k. k \<notin> set kp \<Longrightarrow> database s k \<noteq> Some []"
      and "fold commit_transaction ts (s, kp) = (s', kp')"
  shows "value_count s' = value_count s
       \<and> pending_transactions_list s' = pending_transactions_list s
       \<and> (\<forall>k. database s' k =
              (if k \<in> set kp then database s k
               else (case find_pending ts k of Some e \<Rightarrow> e | None \<Rightarrow> database s k)))"
  using assms
proof (induction ts arbitrary: s kp)
  case Nil
  then show ?case by simp
next
  case (Cons t ts)
  obtain s1 kp1 where one: "fold (commit_key t) (map fst t) (s, kp) = (s1, kp1)"
    by (cases "fold (commit_key t) (map fst t) (s, kp)")
  note r1 = fold_commit_key_result [OF Cons.prems(1) one]
  have p1: "\<And>k. k \<notin> set kp1 \<Longrightarrow> database s1 k \<noteq> Some []"
    using r1 Cons.prems(1) by simp
  have "commit_transaction t (s, kp) = (s1, kp1)"
    using one by (simp add: commit_transaction_def)
  with Cons.prems(2) have r: "fold commit_transaction ts (s1, kp1) = (s', kp')"
    by simp
  note ih = Cons.IH [OF p1 r]
  have "\<forall>k. database s' k =
              (if k \<in> set kp then database s k
               else (case find_pending (t # ts) k of Some e \<Rightarrow> e | None \<Rightarrow> database s k))"
  proof
    fix k
    show "database s' k =
              (if k \<in> set kp then database s k
               else (case find_pending (t # ts) k of Some e \<Rightarrow> e | None \<Rightarrow> database s k))"
    proof (cases "map_of t k")
      case None
      then have "k \<notin> set (map fst t)" by (simp add: map_of_eq_None_iff)
      with None ih r1 show ?thesis by (auto split: option.splits)
    next
      case (Some e)
      then have "k \<in> set (map fst t)" by (metis map_of_eq_None_iff option.distinct(1) set_map)
      with Some ih r1 show ?thesis by (auto split: option.splits)
    qed
  qed
  with ih r1 show ?case by simp
qed

text \<open>When the base table holds no empty string, \<open>commit\<close> turns the base table into
  the effective state, empties the stack and leaves the index alone.\<close>

lemma commit_flattens:
  assumes "pending_transactions_list s \<noteq> []"
      and "\<And>k. database s k \<noteq> Some []"
  shows "commit s = (None, s\<lparr>database := effective s, pending_transactions_list := []\<rparr>)"
proof -
  obtain s' kp' where f: "fold commit_transaction (rev (pending_transactions_list s)) (s, []) = (s', kp')"
    by (cases "fold commit_transaction (rev (pending_transactions_list s)) (s, [])")
  note r = fold_commit_transaction_result [OF assms(2) f]
  have "database s' = effective s"
  proof
    fix k
    show "database s' k = effective s k"
      using r by (simp add: effective_def find_pending_effective)
  qed
  with r have "s'\<lparr>pending_transactions_list := []\<rparr>
                 = s\<lparr>database := effective s, pending_transactions_list := []\<rparr>"
    by simp
  with f assms(1) show ?thesis by (simp add: commit_def)
qed

text \<open>
  Claim C4 asks that after \<open>commit\<close> the base table be the effective state from before
  it.  \<open>commit\<close> applies a tombstone through \<open>unset\<close>, which deletes the key only when
  the base value is true in Python's sense.  After \<open>set a ''; begin; unset a\<close> the key
  \<open>a\<close> is absent from the effective state, and \<open>commit\<close> leaves it in the base table.
\<close>

theorem commit_keeps_empty_value:
  "effective (run [Set ''a'' [], Begin, Unset ''a''] init) ''a'' = None
   \<and> fst (get ''a'' (run [Set ''a'' [], Begin, Unset ''a''] init)) = PrintNull
   \<and> database (snd (commit (run [Set ''a'' [], Begin, Unset ''a''] init))) ''a'' = Some []
   \<and> fst (get ''a'' (snd (commit (run [Set ''a'' [], Begin, Unset ''a''] init)))) = PrintValue []"
  by (simp add: run_def init_def set_db_def unset_def begin_db_def assign_last_def dd_add_def
                dd_getitem_def truthy_def effective_def apply_overlay_def get_def commit_def
                commit_transaction_def commit_key_def)

section \<open>Where the index leaves the effective state\<close>

text \<open>
  Claim C1 asks that \<open>numequalto v\<close> print the number of keys whose \<open>get\<close> prints \<open>v\<close>,
  after every operation.  \<open>set\<close> adds one to the count of the new value also when the key
  already holds it: after \<open>set a 10; set a 10\<close> exactly one key holds \<open>10\<close> and
  \<open>numequalto 10\<close> prints 2.
\<close>

theorem repeated_set_counts_twice:
  "fst (numequalto ''10'' (run [Set ''a'' ''10'', Set ''a'' ''10''] init)) = PrintCount 2
   \<and> {k. fst (get k (run [Set ''a'' ''10'', Set ''a'' ''10''] init)) = PrintValue ''10''}
       = {''a''}"
  by (auto simp add: run_def init_def set_db_def dd_add_def dd_getitem_def truthy_def
                     get_def numequalto_def split: if_splits)

text \<open>
  Claim C8 asks that no count of the index ever be negative.  In a transaction \<open>set\<close>
  takes one off the count of the base table's value at every write of the key: after
  \<open>set a 10; begin; set a 20; set a 30\<close> the entry for \<open>10\<close> is \<open>-1\<close>, and that is what
  \<open>numequalto 10\<close> prints.
\<close>

theorem set_twice_in_block_negative:
  "value_count (run [Set ''a'' ''10'', Begin, Set ''a'' ''20'', Set ''a'' ''30''] init) ''10''
     = Some (- 1)
   \<and> fst (numequalto ''10''
           (run [Set ''a'' ''10'', Begin, Set ''a'' ''20'', Set ''a'' ''30''] init))
       = PrintCount (- 1)"
  by (simp add: run_def init_def set_db_def begin_db_def assign_last_def dd_add_def
                dd_getitem_def truthy_def numequalto_def)

text \<open>
  Claim C9 asks that \<open>unset\<close> of a key whose effective value is absent leave the index
  alone, a second \<open>unset\<close> in a row in particular.  After
  \<open>set a 10; set b 10; begin; unset a\<close> the key \<open>a\<close> is absent and \<open>numequalto 10\<close>
  prints 1; a second \<open>unset a\<close> takes the count to 0 while \<open>b\<close> still holds \<open>10\<close>.
\<close>

theorem second_unset_in_block_decrements:
  "fst (get ''a'' (run [Set ''a'' ''10'', Set ''b'' ''10'', Begin, Unset ''a''] init)) = PrintNull
   \<and> fst (numequalto ''10''
           (run [Set ''a'' ''10'', Set ''b'' ''10'', Begin, Unset ''a''] init)) = PrintCount 1
   \<and> fst (numequalto ''10''
           (run [Set ''a'' ''10'', Set ''b'' ''10'', Begin, Unset ''a'', Unset ''a''] init))
       = PrintCount 0
   \<and> fst (get ''b''
           (run [Set ''a'' ''10'', Set ''b'' ''10'', Begin, Unset ''a'', Unset ''a''] init))
       = PrintValue ''10''"
  by (simp add: run_def init_def set_db_def unset_def begin_db_def assign_last_def dd_add_def
                dd_getitem_def truthy_def get_def numequalto_def)

end
